theory Spec2Isabelle
  imports Main
begin

section \<open>Numeric types of the template parameter\<close>

text \<open>
  \<^verbatim>\<open>add_numbers<T>\<close> and \<^verbatim>\<open>subtract_numbers<T>\<close> of NumericOverflows.cpp are templates
  over a numeric type. The integer instantiations made by \<^verbatim>\<open>main\<close> (char, wchar_t,
  short, int, long, long long and the unsigned types) are described by their signedness
  and their width in bits; a value of such a type is modelled by the integer it denotes.
  The floating-point instantiations (float, double, long double) are modelled further
  below.
\<close>

record ctype =
  is_signed :: bool
  width :: nat

text \<open>\<^verbatim>\<open>std::numeric_limits<T>::max()\<close> and \<^verbatim>\<open>std::numeric_limits<T>::lowest()\<close>
  (two's complement).\<close>

definition maxVal :: "ctype \<Rightarrow> int" where
  "maxVal T = (if is_signed T then 2 ^ (width T - 1) - 1 else 2 ^ width T - 1)"

definition lowVal :: "ctype \<Rightarrow> int" where
  "lowVal T = (if is_signed T then - (2 ^ (width T - 1)) else 0)"

definition representable :: "ctype \<Rightarrow> int \<Rightarrow> bool" where
  "representable T x = (lowVal T \<le> x \<and> x \<le> maxVal T)"

text \<open>The integer types the test driver instantiates have 8, 16, 32 or 64 bits.\<close>

definition supported :: "ctype \<Rightarrow> bool" where
  "supported T = (width T = 8 \<or> width T = 16 \<or> width T = 32 \<or> width T = 64)"

text \<open>
  Integral promotion: the operands of \<^verbatim>\<open>+\<close>, \<^verbatim>\<open>-\<close>, \<^verbatim>\<open><\<close> and \<^verbatim>\<open>>\<close> whose type is
  narrower than int are converted to int (32 bits, which holds all their values) before
  the operation; the other types are operated on as they are.
\<close>

definition int_type :: ctype where
  "int_type = \<lparr>is_signed = True, width = 32\<rparr>"

definition promote :: "ctype \<Rightarrow> ctype" where
  "promote T = (if width T < width int_type then int_type else T)"

section \<open>Arithmetic of the abstract machine\<close>

text \<open>
  An arithmetic expression whose exact mathematical result is \<open>x\<close>, evaluated in type
  \<open>P\<close>: the result is \<open>x\<close> when \<open>P\<close> can represent it; otherwise an unsigned type wraps
  around modulo \<open>2 ^ width\<close>, and a signed type has undefined behaviour, which is a fault
  of the run. Every evaluation is recorded, with the kind of expression and its exact
  result, in the list of operations the run has performed.
\<close>

datatype fault = SignedOverflow

datatype expr_kind = Guard | Accumulate

type_synonym event = "expr_kind \<times> int"

type_synonym 'a run = "event list \<times> (fault + 'a)"

definition ret :: "'a \<Rightarrow> 'a run" where
  "ret x = ([], Inr x)"

definition bind_run :: "'a run \<Rightarrow> ('a \<Rightarrow> 'b run) \<Rightarrow> 'b run" where
  "bind_run m f =
     (case m of
        (l, Inl e) \<Rightarrow> (l, Inl e)
      | (l, Inr x) \<Rightarrow> (case f x of (l', r) \<Rightarrow> (l @ l', r)))"

definition arith :: "expr_kind \<Rightarrow> ctype \<Rightarrow> int \<Rightarrow> int run" where
  "arith k P x =
     ([(k, x)],
      if representable P x then Inr x
      else if is_signed P then Inl SignedOverflow
      else Inr (x mod 2 ^ width P))"

text \<open>Conversion of a value of the promoted type back to \<open>T\<close> (the assignment half of
  \<^verbatim>\<open>+=\<close> and \<^verbatim>\<open>-=\<close>): the value modulo \<open>2 ^ width\<close> that \<open>T\<close> can represent.\<close>

definition convert :: "ctype \<Rightarrow> int \<Rightarrow> int" where
  "convert T x =
     (if is_signed T
      then (x + 2 ^ (width T - 1)) mod 2 ^ width T - 2 ^ (width T - 1)
      else x mod 2 ^ width T)"

section \<open>The accumulation routines\<close>

record CalcResult =
  "value" :: int
  success :: bool

text \<open>
  The check made before each addition (lines 45 to 62): the result says whether the
  routine stops here. \<open>v\<close> is \<^verbatim>\<open>out.value\<close>.
\<close>

definition add_guard :: "ctype \<Rightarrow> int \<Rightarrow> int \<Rightarrow> bool run" where
  "add_guard T v increment =
     (if increment > 0 then
        bind_run (arith Guard (promote T) (maxVal T - increment)) (\<lambda>g. ret (v > g))
      else if increment < 0 then
        bind_run (arith Guard (promote T) (lowVal T - increment)) (\<lambda>g. ret (v < g))
      else ret False)"

text \<open>The \<^verbatim>\<open>for\<close> loop of \<^verbatim>\<open>add_numbers\<close>, by the number of iterations that remain.\<close>

fun add_loop :: "ctype \<Rightarrow> int \<Rightarrow> int \<Rightarrow> nat \<Rightarrow> CalcResult run" where
  "add_loop T v increment 0 = ret \<lparr>value = v, success = True\<rparr>"
| "add_loop T v increment (Suc n) =
     bind_run (add_guard T v increment) (\<lambda>stop.
       if stop then ret \<lparr>value = v, success = False\<rparr>
       else bind_run (arith Accumulate (promote T) (v + increment)) (\<lambda>s.
              add_loop T (convert T s) increment n))"

definition add_numbers_run :: "ctype \<Rightarrow> int \<Rightarrow> int \<Rightarrow> nat \<Rightarrow> CalcResult run" where
  "add_numbers_run T start increment steps = add_loop T start increment steps"

definition add_numbers :: "ctype \<Rightarrow> int \<Rightarrow> int \<Rightarrow> nat \<Rightarrow> fault + CalcResult" where
  "add_numbers T start increment steps = snd (add_numbers_run T start increment steps)"

text \<open>The check made before each subtraction (lines 97 to 115).\<close>

definition subtract_guard :: "ctype \<Rightarrow> int \<Rightarrow> int \<Rightarrow> bool run" where
  "subtract_guard T v decrement =
     (if decrement > 0 then
        bind_run (arith Guard (promote T) (lowVal T + decrement)) (\<lambda>g. ret (v < g))
      else if decrement < 0 then
        bind_run (arith Guard (promote T) (maxVal T + decrement)) (\<lambda>g. ret (v > g))
      else ret False)"

fun subtract_loop :: "ctype \<Rightarrow> int \<Rightarrow> int \<Rightarrow> nat \<Rightarrow> CalcResult run" where
  "subtract_loop T v decrement 0 = ret \<lparr>value = v, success = True\<rparr>"
| "subtract_loop T v decrement (Suc n) =
     bind_run (subtract_guard T v decrement) (\<lambda>stop.
       if stop then ret \<lparr>value = v, success = False\<rparr>
       else bind_run (arith Accumulate (promote T) (v - decrement)) (\<lambda>s.
              subtract_loop T (convert T s) decrement n))"

definition subtract_numbers_run :: "ctype \<Rightarrow> int \<Rightarrow> int \<Rightarrow> nat \<Rightarrow> CalcResult run" where
  "subtract_numbers_run T start decrement steps = subtract_loop T start decrement steps"

definition subtract_numbers :: "ctype \<Rightarrow> int \<Rightarrow> int \<Rightarrow> nat \<Rightarrow> fault + CalcResult" where
  "subtract_numbers T start decrement steps =
     snd (subtract_numbers_run T start decrement steps)"

section \<open>The test driver\<close>

text \<open>
  \<^verbatim>\<open>test_overflow<T>\<close> and \<^verbatim>\<open>test_underflow<T>\<close> without their printing: the results
  \<^verbatim>\<open>r1\<close> and \<^verbatim>\<open>r2\<close> of the two calls. The quotient \<^verbatim>\<open>max() / steps\<close> has
  non-negative operands, so the truncating division of the source is \<open>div\<close>.
\<close>

definition test_overflow :: "ctype \<Rightarrow> (fault + CalcResult) \<times> (fault + CalcResult)" where
  "test_overflow T =
     (let steps = 5;
          increment = maxVal T div int steps;
          start = 0
      in (add_numbers T start increment steps,
          add_numbers T start increment (steps + 1)))"

definition test_underflow :: "ctype \<Rightarrow> (fault + CalcResult) \<times> (fault + CalcResult)" where
  "test_underflow T =
     (let steps = 5;
          decrement = maxVal T div int steps;
          start = maxVal T
      in (subtract_numbers T start decrement steps,
          subtract_numbers T start decrement (steps + 1)))"

section \<open>Exact values of the guard expressions\<close>

text \<open>The guard expression an iteration evaluates, as an event with its exact value.\<close>

definition add_guard_events :: "ctype \<Rightarrow> int \<Rightarrow> event list" where
  "add_guard_events T increment =
     (if increment > 0 then [(Guard, maxVal T - increment)]
      else if increment < 0 then [(Guard, lowVal T - increment)]
      else [])"

definition subtract_guard_events :: "ctype \<Rightarrow> int \<Rightarrow> event list" where
  "subtract_guard_events T decrement =
     (if decrement > 0 then [(Guard, lowVal T + decrement)]
      else if decrement < 0 then [(Guard, maxVal T + decrement)]
      else [])"

section \<open>Floating-point types of the template parameter\<close>

text \<open>
  \<^verbatim>\<open>main\<close> also instantiates the two routines at \<^verbatim>\<open>float\<close>, \<^verbatim>\<open>double\<close> and
  \<^verbatim>\<open>long double\<close>. A binary floating-point format is given by the number of bits of its
  significand and by its largest exponent; every operation is rounded to the format, to
  nearest with ties to even (IEEE 754). A finite value is an integer multiple of the
  smallest subnormal number of the format and is modelled by that integer, so that sums
  and differences of finite values are exact integers before they are rounded. The two
  zeros, which compare equal, are not told apart.
\<close>

record fformat =
  precision :: nat
  emax :: nat

definition binary32 :: fformat where
  "binary32 = \<lparr>precision = 24, emax = 127\<rparr>"

definition binary64 :: fformat where
  "binary64 = \<lparr>precision = 53, emax = 1023\<rparr>"

datatype fval = Finite int | PosInf | NegInf | NaN

text \<open>The largest finite value \<open>(2 ^ p - 1) * 2 ^ (emax - p + 1)\<close>, in units of the
  smallest subnormal \<open>2 ^ (2 - emax - p)\<close>.\<close>

definition fmax :: "fformat \<Rightarrow> int" where
  "fmax F = (2 ^ precision F - 1) * 2 ^ (2 * emax F - 1)"

text \<open>\<^verbatim>\<open>std::numeric_limits<T>::max()\<close> and \<^verbatim>\<open>std::numeric_limits<T>::lowest()\<close>.\<close>

definition maxVal_fp :: "fformat \<Rightarrow> fval" where
  "maxVal_fp F = Finite (fmax F)"

definition lowVal_fp :: "fformat \<Rightarrow> fval" where
  "lowVal_fp F = Finite (- fmax F)"

text \<open>The number of binary digits of a positive integer.\<close>

function bitlen :: "int \<Rightarrow> nat" where
  "bitlen n = (if n \<le> 0 then 0 else Suc (bitlen (n div 2)))"
  by pat_completeness auto
termination
  by (relation "measure nat") auto

text \<open>
  Rounding of a magnitude to \<open>p\<close> significant bits: the digits below the \<open>p\<close> leading
  ones are dropped, and the result is rounded up when they are more than half of the
  last place kept, or exactly half of it and the kept part is odd.
\<close>

definition round_mag :: "nat \<Rightarrow> int \<Rightarrow> int" where
  "round_mag p a =
     (let s = bitlen a - p;
          q = a div 2 ^ s;
          r = a mod 2 ^ s;
          q' = (if 2 * r > 2 ^ s \<or> (2 * r = 2 ^ s \<and> odd q) then q + 1 else q)
      in q' * 2 ^ s)"

text \<open>Rounding of an exact result to the format; a rounded magnitude above the largest
  finite value overflows to an infinity.\<close>

definition round_nearest :: "fformat \<Rightarrow> int \<Rightarrow> fval" where
  "round_nearest F n =
     (let m = round_mag (precision F) \<bar>n\<bar>
      in if m > fmax F then (if n > 0 then PosInf else NegInf)
         else Finite (if n < 0 then - m else m))"

text \<open>The finite values of the format: in range, with at most \<open>p\<close> significant bits.\<close>

definition is_float :: "fformat \<Rightarrow> int \<Rightarrow> bool" where
  "is_float F n =
     (\<bar>n\<bar> \<le> fmax F \<and> \<bar>n\<bar> mod 2 ^ (bitlen \<bar>n\<bar> - precision F) = 0)"

fun fneg :: "fval \<Rightarrow> fval" where
  "fneg (Finite a) = Finite (- a)"
| "fneg PosInf = NegInf"
| "fneg NegInf = PosInf"
| "fneg NaN = NaN"

fun fadd :: "fformat \<Rightarrow> fval \<Rightarrow> fval \<Rightarrow> fval" where
  "fadd F (Finite a) (Finite b) = round_nearest F (a + b)"
| "fadd F NaN y = NaN"
| "fadd F x NaN = NaN"
| "fadd F PosInf NegInf = NaN"
| "fadd F NegInf PosInf = NaN"
| "fadd F PosInf y = PosInf"
| "fadd F x PosInf = PosInf"
| "fadd F NegInf y = NegInf"
| "fadd F x NegInf = NegInf"

definition fsub :: "fformat \<Rightarrow> fval \<Rightarrow> fval \<Rightarrow> fval" where
  "fsub F x y = fadd F x (fneg y)"

text \<open>The comparison \<^verbatim>\<open><\<close>; \<^verbatim>\<open>x > y\<close> is \<open>fless y x\<close>. A comparison with a NaN is
  false.\<close>

fun fless :: "fval \<Rightarrow> fval \<Rightarrow> bool" where
  "fless NaN y = False"
| "fless x NaN = False"
| "fless (Finite a) (Finite b) = (a < b)"
| "fless x NegInf = False"
| "fless NegInf y = True"
| "fless PosInf y = False"
| "fless x PosInf = True"


section \<open>The accumulation routines on a floating-point type\<close>

record CalcResult_fp =
  value_fp :: fval
  success_fp :: bool

type_synonym fevent = "expr_kind \<times> fval"

text \<open>
  The same template at a floating-point type. No operation faults; the record of a run
  lists the guard expressions and accumulations with their rounded results. The check
  before each addition is returned with the guard expression it evaluates.
\<close>

definition add_guard_fp :: "fformat \<Rightarrow> fval \<Rightarrow> fval \<Rightarrow> fevent list \<times> bool" where
  "add_guard_fp F v increment =
     (if fless (Finite 0) increment then
        (let g = fsub F (maxVal_fp F) increment in ([(Guard, g)], fless g v))
      else if fless increment (Finite 0) then
        (let g = fsub F (lowVal_fp F) increment in ([(Guard, g)], fless v g))
      else ([], False))"

fun add_loop_fp :: "fformat \<Rightarrow> fval \<Rightarrow> fval \<Rightarrow> nat \<Rightarrow> fevent list \<times> CalcResult_fp" where
  "add_loop_fp F v increment 0 = ([], \<lparr>value_fp = v, success_fp = True\<rparr>)"
| "add_loop_fp F v increment (Suc n) =
     (case add_guard_fp F v increment of
        (l, stop) \<Rightarrow>
          if stop then (l, \<lparr>value_fp = v, success_fp = False\<rparr>)
          else (let s = fadd F v increment
                in case add_loop_fp F s increment n of
                     (l', r) \<Rightarrow> (l @ (Accumulate, s) # l', r)))"

definition add_numbers_fp_run ::
  "fformat \<Rightarrow> fval \<Rightarrow> fval \<Rightarrow> nat \<Rightarrow> fevent list \<times> CalcResult_fp" where
  "add_numbers_fp_run F start increment steps = add_loop_fp F start increment steps"

definition add_numbers_fp :: "fformat \<Rightarrow> fval \<Rightarrow> fval \<Rightarrow> nat \<Rightarrow> CalcResult_fp" where
  "add_numbers_fp F start increment steps = snd (add_numbers_fp_run F start increment steps)"

definition subtract_guard_fp :: "fformat \<Rightarrow> fval \<Rightarrow> fval \<Rightarrow> fevent list \<times> bool" where
  "subtract_guard_fp F v decrement =
     (if fless (Finite 0) decrement then
        (let g = fadd F (lowVal_fp F) decrement in ([(Guard, g)], fless v g))
      else if fless decrement (Finite 0) then
        (let g = fadd F (maxVal_fp F) decrement in ([(Guard, g)], fless g v))
      else ([], False))"

fun subtract_loop_fp ::
  "fformat \<Rightarrow> fval \<Rightarrow> fval \<Rightarrow> nat \<Rightarrow> fevent list \<times> CalcResult_fp" where
  "subtract_loop_fp F v decrement 0 = ([], \<lparr>value_fp = v, success_fp = True\<rparr>)"
| "subtract_loop_fp F v decrement (Suc n) =
     (case subtract_guard_fp F v decrement of
        (l, stop) \<Rightarrow>
          if stop then (l, \<lparr>value_fp = v, success_fp = False\<rparr>)
          else (let s = fsub F v decrement
                in case subtract_loop_fp F s decrement n of
                     (l', r) \<Rightarrow> (l @ (Accumulate, s) # l', r)))"

definition subtract_numbers_fp_run ::
  "fformat \<Rightarrow> fval \<Rightarrow> fval \<Rightarrow> nat \<Rightarrow> fevent list \<times> CalcResult_fp" where
  "subtract_numbers_fp_run F start decrement steps = subtract_loop_fp F start decrement steps"

definition subtract_numbers_fp ::
  "fformat \<Rightarrow> fval \<Rightarrow> fval \<Rightarrow> nat \<Rightarrow> CalcResult_fp" where
  "subtract_numbers_fp F start decrement steps =
     snd (subtract_numbers_fp_run F start decrement steps)"

section \<open>Ranges\<close>

lemma lowVal_le_0: "lowVal T \<le> 0"
  by (simp add: lowVal_def)

lemma maxVal_ge_0: "0 \<le> maxVal T"
  by (simp add: maxVal_def)

lemma representable_promote:
  assumes "representable T x"
  shows "representable (promote T) x"
proof (cases "width T < 32")
  case False
  then show ?thesis using assms by (simp add: promote_def int_type_def)
next
  case True
  have s: "(2::int) ^ (width T - 1) \<le> 2 ^ 31"
    using True by (intro power_increasing) auto
  have u: "(2::int) ^ width T \<le> 2 ^ 31"
    using True by (intro power_increasing) auto
  from True have P: "promote T = int_type" by (simp add: promote_def int_type_def)
  show ?thesis
    using assms s u unfolding P
    by (auto simp: representable_def maxVal_def lowVal_def int_type_def split: if_splits)
qed

lemma arith_representable:
  "representable T x \<Longrightarrow> arith k (promote T) x = ([(k, x)], Inr x)"
  by (simp add: arith_def representable_promote)

lemma supported_width: "supported T \<Longrightarrow> 0 < width T"
  by (auto simp: supported_def)

lemma convert_representable:
  assumes "0 < width T" and "representable T x"
  shows "convert T x = x"
proof (cases "is_signed T")
  case False
  with assms show ?thesis
    by (simp add: convert_def representable_def maxVal_def lowVal_def)
next
  case True
  from assms(1) obtain w where w: "width T = Suc w"
    by (cases "width T") auto
  with True assms(2) have "0 \<le> x + 2 ^ w" "x + 2 ^ w < 2 ^ Suc w"
    by (auto simp: representable_def maxVal_def lowVal_def)
  then have "(x + 2 ^ w) mod 2 ^ Suc w = x + 2 ^ w"
    by (rule mod_pos_pos_trivial)
  with True w show ?thesis
    by (simp add: convert_def)
qed

section \<open>One iteration\<close>

lemma bind_run_Inr: "bind_run (l, Inr x) f = (l @ fst (f x), snd (f x))"
  by (simp add: bind_run_def split: prod.splits)

lemma add_guard_eq:
  assumes "representable T v" and "representable T increment"
  shows "add_guard T v increment =
           (add_guard_events T increment, Inr (\<not> representable T (v + increment)))"
proof -
  have pos: "representable T (maxVal T - increment)" if "increment > 0"
    using that assms(2) lowVal_le_0 [of T] by (simp add: representable_def)
  have neg: "representable T (lowVal T - increment)" if "increment < 0"
    using that assms(2) maxVal_ge_0 [of T] by (simp add: representable_def)
  show ?thesis
    using assms pos neg
    by (auto simp: add_guard_def add_guard_events_def arith_representable bind_run_Inr
        ret_def representable_def)
qed

lemma subtract_guard_eq:
  assumes "representable T v" and "representable T decrement"
  shows "subtract_guard T v decrement =
           (subtract_guard_events T decrement, Inr (\<not> representable T (v - decrement)))"
proof -
  have pos: "representable T (lowVal T + decrement)" if "decrement > 0"
    using that assms(2) lowVal_le_0 [of T] by (simp add: representable_def)
  have neg: "representable T (maxVal T + decrement)" if "decrement < 0"
    using that assms(2) maxVal_ge_0 [of T] by (simp add: representable_def)
  show ?thesis
    using assms pos neg
    by (auto simp: subtract_guard_def subtract_guard_events_def arith_representable
        bind_run_Inr ret_def representable_def)
qed

lemma add_loop_Suc_stop:
  assumes "representable T v" and "representable T increment"
    and "\<not> representable T (v + increment)"
  shows "add_loop T v increment (Suc n) =
           (add_guard_events T increment, Inr \<lparr>value = v, success = False\<rparr>)"
  using assms by (simp add: add_guard_eq bind_run_Inr ret_def)

lemma add_loop_Suc_go:
  assumes "0 < width T" and "representable T v" and "representable T increment"
    and "representable T (v + increment)"
  shows "add_loop T v increment (Suc n) =
           (add_guard_events T increment @ (Accumulate, v + increment) #
              fst (add_loop T (v + increment) increment n),
            snd (add_loop T (v + increment) increment n))"
  using assms
  by (simp add: add_guard_eq bind_run_Inr arith_representable convert_representable)

lemma subtract_loop_Suc_stop:
  assumes "representable T v" and "representable T decrement"
    and "\<not> representable T (v - decrement)"
  shows "subtract_loop T v decrement (Suc n) =
           (subtract_guard_events T decrement, Inr \<lparr>value = v, success = False\<rparr>)"
  using assms by (simp add: subtract_guard_eq bind_run_Inr ret_def)

lemma subtract_loop_Suc_go:
  assumes "0 < width T" and "representable T v" and "representable T decrement"
    and "representable T (v - decrement)"
  shows "subtract_loop T v decrement (Suc n) =
           (subtract_guard_events T decrement @ (Accumulate, v - decrement) #
              fst (subtract_loop T (v - decrement) decrement n),
            snd (subtract_loop T (v - decrement) decrement n))"
  using assms
  by (simp add: subtract_guard_eq bind_run_Inr arith_representable convert_representable)

declare add_loop.simps(2) [simp del] subtract_loop.simps(2) [simp del]

section \<open>The additive loop\<close>


lemma add_guard_events_no_accumulate:
  "filter (\<lambda>e. fst e = Accumulate) (add_guard_events T increment) = []"
  by (simp add: add_guard_events_def)

lemma add_loop_safe:
  assumes "0 < width T" and "representable T increment"
    and "\<forall>i\<le>n. representable T (v + increment * int i)"
  shows "snd (add_loop T v increment n) =
           Inr \<lparr>value = v + increment * int n, success = True\<rparr>"
  using assms(3)
proof (induction n arbitrary: v)
  case 0
  show ?case by (simp add: ret_def)
next
  case (Suc n)
  from Suc.prems [THEN spec, of 0] have v: "representable T v" by simp
  from Suc.prems [THEN spec, of 1] have v1: "representable T (v + increment)" by simp
  have "\<forall>i\<le>n. representable T (v + increment + increment * int i)"
  proof (intro allI impI)
    fix i assume "i \<le> n"
    with Suc.prems [THEN spec, of "Suc i"]
    show "representable T (v + increment + increment * int i)"
      by (simp add: algebra_simps)
  qed
  from Suc.IH [OF this] show ?case
    by (simp add: add_loop_Suc_go [OF assms(1) v assms(2) v1] algebra_simps)
qed

lemma add_loop_stop:
  assumes "0 < width T" and "representable T increment"
    and "k < n"
    and "\<forall>i\<le>k. representable T (v + increment * int i)"
    and "\<not> representable T (v + increment * int (Suc k))"
  shows "snd (add_loop T v increment n) =
           Inr \<lparr>value = v + increment * int k, success = False\<rparr> \<and>
         length (filter (\<lambda>e. fst e = Accumulate) (fst (add_loop T v increment n))) = k"
  using assms(3-5)
proof (induction k arbitrary: v n)
  case 0
  then obtain m where n: "n = Suc m" by (cases n) auto
  from 0 have v: "representable T v" and nv: "\<not> representable T (v + increment)"
    by simp_all
  show ?case unfolding n
    by (simp add: add_loop_Suc_stop [OF v assms(2) nv] add_guard_events_no_accumulate)
next
  case (Suc k)
  then obtain m where n: "n = Suc m" and km: "k < m" by (cases n) auto
  from Suc.prems(2) [THEN spec, of 0] have v: "representable T v" by simp
  from Suc.prems(2) [THEN spec, of 1] have v1: "representable T (v + increment)" by simp
  have a: "\<forall>i\<le>k. representable T (v + increment + increment * int i)"
  proof (intro allI impI)
    fix i assume "i \<le> k"
    with Suc.prems(2) [THEN spec, of "Suc i"]
    show "representable T (v + increment + increment * int i)"
      by (simp add: algebra_simps)
  qed
  have b: "\<not> representable T (v + increment + increment * int (Suc k))"
    using Suc.prems(3) by (simp add: algebra_simps)
  from Suc.IH [OF km a b] show ?case unfolding n
    by (simp add: add_loop_Suc_go [OF assms(1) v assms(2) v1]
        add_guard_events_no_accumulate algebra_simps)
qed

lemma add_loop_partial_sum:
  assumes "0 < width T" and "representable T increment" and "representable T v"
  shows "\<exists>i\<le>n. snd (add_loop T v increment n) =
             Inr \<lparr>value = v + increment * int i, success = (i = n)\<rparr> \<and>
           (\<forall>j\<le>i. representable T (v + increment * int j))"
  using assms(3)
proof (induction n arbitrary: v)
  case 0
  then show ?case by (simp add: ret_def)
next
  case (Suc n)
  show ?case
  proof (cases "representable T (v + increment)")
    case False
    have "snd (add_loop T v increment (Suc n)) =
            Inr \<lparr>value = v + increment * int 0, success = (0 = Suc n)\<rparr> \<and>
          (\<forall>j\<le>0. representable T (v + increment * int j))"
      using Suc.prems by (simp add: add_loop_Suc_stop [OF Suc.prems assms(2) False])
    then show ?thesis by blast
  next
    case True
    from Suc.IH [OF True] obtain i where i: "i \<le> n"
      "snd (add_loop T (v + increment) increment n) =
         Inr \<lparr>value = v + increment + increment * int i, success = (i = n)\<rparr>"
      "\<forall>j\<le>i. representable T (v + increment + increment * int j)"
      by blast
    have "\<forall>j\<le>Suc i. representable T (v + increment * int j)"
    proof (intro allI impI)
      fix j assume j: "j \<le> Suc i"
      show "representable T (v + increment * int j)"
      proof (cases j)
        case 0
        with Suc.prems show ?thesis by simp
      next
        case (Suc j')
        with j i(3) [THEN spec, of j'] show ?thesis by (simp add: algebra_simps)
      qed
    qed
    moreover have "snd (add_loop T v increment (Suc n)) =
        Inr \<lparr>value = v + increment * int (Suc i), success = (Suc i = Suc n)\<rparr>"
      using i(2) by (simp add: add_loop_Suc_go [OF assms(1) Suc.prems assms(2) True] algebra_simps)
    moreover have "Suc i \<le> Suc n" using i(1) by simp
    ultimately show ?thesis by blast
  qed
qed


lemma add_loop_failure_stable:
  assumes "0 < width T" and "representable T increment" and "representable T v"
    and "snd (add_loop T v increment n) = Inr r" and "\<not> success r" and "n \<le> m"
  shows "snd (add_loop T v increment m) = Inr r"
  using assms(3,4,6)
proof (induction n arbitrary: v m)
  case 0
  with assms(5) show ?case by (auto simp: ret_def)
next
  case (Suc n)
  then obtain m' where m: "m = Suc m'" and nm: "n \<le> m'" by (cases m) auto
  show ?case
  proof (cases "representable T (v + increment)")
    case False
    show ?thesis using Suc.prems(2) unfolding m
      by (simp add: add_loop_Suc_stop [OF Suc.prems(1) assms(2) False])
  next
    case True
    from Suc.prems(2) have "snd (add_loop T (v + increment) increment n) = Inr r"
      by (simp add: add_loop_Suc_go [OF assms(1) Suc.prems(1) assms(2) True])
    from Suc.IH [OF True this nm] show ?thesis unfolding m
      by (simp add: add_loop_Suc_go [OF assms(1) Suc.prems(1) assms(2) True])
  qed
qed

lemma add_loop_compose:
  assumes "0 < width T" and "representable T increment" and "representable T v"
    and "snd (add_loop T v increment a) = Inr r" and "success r"
  shows "snd (add_loop T v increment (a + b)) = snd (add_loop T (value r) increment b)"
  using assms(3,4)
proof (induction a arbitrary: v)
  case 0
  then show ?case by (auto simp: ret_def)
next
  case (Suc a)
  show ?case
  proof (cases "representable T (v + increment)")
    case False
    with Suc.prems(2) assms(5) show ?thesis
      by (auto simp: add_loop_Suc_stop [OF Suc.prems(1) assms(2) False])
  next
    case True
    from Suc.prems(2) have "snd (add_loop T (v + increment) increment a) = Inr r"
      by (simp add: add_loop_Suc_go [OF assms(1) Suc.prems(1) assms(2) True])
    from Suc.IH [OF True this] show ?thesis
      by (simp add: add_loop_Suc_go [OF assms(1) Suc.prems(1) assms(2) True])
  qed
qed

section \<open>The subtractive loop\<close>


lemma subtract_guard_events_no_accumulate:
  "filter (\<lambda>e. fst e = Accumulate) (subtract_guard_events T decrement) = []"
  by (simp add: subtract_guard_events_def)

lemma subtract_loop_safe:
  assumes "0 < width T" and "representable T decrement"
    and "\<forall>i\<le>n. representable T (v - decrement * int i)"
  shows "snd (subtract_loop T v decrement n) =
           Inr \<lparr>value = v - decrement * int n, success = True\<rparr>"
  using assms(3)
proof (induction n arbitrary: v)
  case 0
  show ?case by (simp add: ret_def)
next
  case (Suc n)
  from Suc.prems [THEN spec, of 0] have v: "representable T v" by simp
  from Suc.prems [THEN spec, of 1] have v1: "representable T (v - decrement)" by simp
  have "\<forall>i\<le>n. representable T (v - decrement - decrement * int i)"
  proof (intro allI impI)
    fix i assume "i \<le> n"
    with Suc.prems [THEN spec, of "Suc i"]
    show "representable T (v - decrement - decrement * int i)"
      by (simp add: algebra_simps)
  qed
  from Suc.IH [OF this] show ?case
    by (simp add: subtract_loop_Suc_go [OF assms(1) v assms(2) v1] algebra_simps)
qed

lemma subtract_loop_stop:
  assumes "0 < width T" and "representable T decrement"
    and "k < n"
    and "\<forall>i\<le>k. representable T (v - decrement * int i)"
    and "\<not> representable T (v - decrement * int (Suc k))"
  shows "snd (subtract_loop T v decrement n) =
           Inr \<lparr>value = v - decrement * int k, success = False\<rparr> \<and>
         length (filter (\<lambda>e. fst e = Accumulate) (fst (subtract_loop T v decrement n))) = k"
  using assms(3-5)
proof (induction k arbitrary: v n)
  case 0
  then obtain m where n: "n = Suc m" by (cases n) auto
  from 0 have v: "representable T v" and nv: "\<not> representable T (v - decrement)"
    by simp_all
  show ?case unfolding n
    by (simp add: subtract_loop_Suc_stop [OF v assms(2) nv] subtract_guard_events_no_accumulate)
next
  case (Suc k)
  then obtain m where n: "n = Suc m" and km: "k < m" by (cases n) auto
  from Suc.prems(2) [THEN spec, of 0] have v: "representable T v" by simp
  from Suc.prems(2) [THEN spec, of 1] have v1: "representable T (v - decrement)" by simp
  have a: "\<forall>i\<le>k. representable T (v - decrement - decrement * int i)"
  proof (intro allI impI)
    fix i assume "i \<le> k"
    with Suc.prems(2) [THEN spec, of "Suc i"]
    show "representable T (v - decrement - decrement * int i)"
      by (simp add: algebra_simps)
  qed
  have b: "\<not> representable T (v - decrement - decrement * int (Suc k))"
    using Suc.prems(3) by (simp add: algebra_simps)
  from Suc.IH [OF km a b] show ?case unfolding n
    by (simp add: subtract_loop_Suc_go [OF assms(1) v assms(2) v1]
        subtract_guard_events_no_accumulate algebra_simps)
qed

lemma subtract_loop_partial_sum:
  assumes "0 < width T" and "representable T decrement" and "representable T v"
  shows "\<exists>i\<le>n. snd (subtract_loop T v decrement n) =
             Inr \<lparr>value = v - decrement * int i, success = (i = n)\<rparr> \<and>
           (\<forall>j\<le>i. representable T (v - decrement * int j))"
  using assms(3)
proof (induction n arbitrary: v)
  case 0
  then show ?case by (simp add: ret_def)
next
  case (Suc n)
  show ?case
  proof (cases "representable T (v - decrement)")
    case False
    have "snd (subtract_loop T v decrement (Suc n)) =
            Inr \<lparr>value = v - decrement * int 0, success = (0 = Suc n)\<rparr> \<and>
          (\<forall>j\<le>0. representable T (v - decrement * int j))"
      using Suc.prems by (simp add: subtract_loop_Suc_stop [OF Suc.prems assms(2) False])
    then show ?thesis by blast
  next
    case True
    from Suc.IH [OF True] obtain i where i: "i \<le> n"
      "snd (subtract_loop T (v - decrement) decrement n) =
         Inr \<lparr>value = v - decrement - decrement * int i, success = (i = n)\<rparr>"
      "\<forall>j\<le>i. representable T (v - decrement - decrement * int j)"
      by blast
    have "\<forall>j\<le>Suc i. representable T (v - decrement * int j)"
    proof (intro allI impI)
      fix j assume j: "j \<le> Suc i"
      show "representable T (v - decrement * int j)"
      proof (cases j)
        case 0
        with Suc.prems show ?thesis by simp
      next
        case (Suc j')
        with j i(3) [THEN spec, of j'] show ?thesis by (simp add: algebra_simps)
      qed
    qed
    moreover have "snd (subtract_loop T v decrement (Suc n)) =
        Inr \<lparr>value = v - decrement * int (Suc i), success = (Suc i = Suc n)\<rparr>"
      using i(2) by (simp add: subtract_loop_Suc_go [OF assms(1) Suc.prems assms(2) True] algebra_simps)
    moreover have "Suc i \<le> Suc n" using i(1) by simp
    ultimately show ?thesis by blast
  qed
qed


lemma subtract_loop_failure_stable:
  assumes "0 < width T" and "representable T decrement" and "representable T v"
    and "snd (subtract_loop T v decrement n) = Inr r" and "\<not> success r" and "n \<le> m"
  shows "snd (subtract_loop T v decrement m) = Inr r"
  using assms(3,4,6)
proof (induction n arbitrary: v m)
  case 0
  with assms(5) show ?case by (auto simp: ret_def)
next
  case (Suc n)
  then obtain m' where m: "m = Suc m'" and nm: "n \<le> m'" by (cases m) auto
  show ?case
  proof (cases "representable T (v - decrement)")
    case False
    show ?thesis using Suc.prems(2) unfolding m
      by (simp add: subtract_loop_Suc_stop [OF Suc.prems(1) assms(2) False])
  next
    case True
    from Suc.prems(2) have "snd (subtract_loop T (v - decrement) decrement n) = Inr r"
      by (simp add: subtract_loop_Suc_go [OF assms(1) Suc.prems(1) assms(2) True])
    from Suc.IH [OF True this nm] show ?thesis unfolding m
      by (simp add: subtract_loop_Suc_go [OF assms(1) Suc.prems(1) assms(2) True])
  qed
qed

lemma subtract_loop_compose:
  assumes "0 < width T" and "representable T decrement" and "representable T v"
    and "snd (subtract_loop T v decrement a) = Inr r" and "success r"
  shows "snd (subtract_loop T v decrement (a + b)) = snd (subtract_loop T (value r) decrement b)"
  using assms(3,4)
proof (induction a arbitrary: v)
  case 0
  then show ?case by (auto simp: ret_def)
next
  case (Suc a)
  show ?case
  proof (cases "representable T (v - decrement)")
    case False
    with Suc.prems(2) assms(5) show ?thesis
      by (auto simp: subtract_loop_Suc_stop [OF Suc.prems(1) assms(2) False])
  next
    case True
    from Suc.prems(2) have "snd (subtract_loop T (v - decrement) decrement a) = Inr r"
      by (simp add: subtract_loop_Suc_go [OF assms(1) Suc.prems(1) assms(2) True])
    from Suc.IH [OF True this] show ?thesis
      by (simp add: subtract_loop_Suc_go [OF assms(1) Suc.prems(1) assms(2) True])
  qed
qed

section \<open>Binary digits\<close>

declare bitlen.simps [simp del]

lemma bitlen_nonpos: "n \<le> 0 \<Longrightarrow> bitlen n = 0"
  by (subst bitlen.simps) simp

lemma bitlen_pos: "0 < n \<Longrightarrow> bitlen n = Suc (bitlen (n div 2))"
  by (subst bitlen.simps) simp

lemma bitlen_upper: "n < 2 ^ bitlen n"
proof (induction n rule: bitlen.induct)
  case (1 n)
  show ?case
  proof (cases "n \<le> 0")
    case True
    then have "bitlen n = 0" by (rule bitlen_nonpos)
    with True show ?thesis by simp
  next
    case False
    then have ih: "n div 2 < 2 ^ bitlen (n div 2)" by (rule 1)
    from False have "bitlen n = Suc (bitlen (n div 2))" by (simp only: bitlen_pos not_le)
    with ih show ?thesis by simp
  qed
qed

lemma bitlen_lower: "0 < n \<Longrightarrow> 2 ^ (bitlen n - 1) \<le> n"
proof (induction n rule: bitlen.induct)
  case (1 n)
  from 1(2) have b: "bitlen n = Suc (bitlen (n div 2))" by (rule bitlen_pos)
  show ?case
  proof (cases "n div 2 \<le> 0")
    case True
    then have "bitlen (n div 2) = 0" by (rule bitlen_nonpos)
    with b 1(2) show ?thesis by simp
  next
    case False
    then have p: "0 < n div 2" by simp
    from 1(2) have "\<not> n \<le> 0" by simp
    from 1(1) [OF this p] have ih: "2 ^ (bitlen (n div 2) - 1) \<le> n div 2" .
    from p have "bitlen (n div 2) = Suc (bitlen (n div 2 div 2))" by (rule bitlen_pos)
    then have "(2::int) ^ bitlen (n div 2) = 2 * 2 ^ (bitlen (n div 2) - 1)" by simp
    with ih have "2 ^ bitlen (n div 2) \<le> 2 * (n div 2)" by simp
    also have "\<dots> \<le> n" by simp
    finally show ?thesis using b by simp
  qed
qed

lemma bitlen_mono:
  assumes "a \<le> b"
  shows "bitlen a \<le> bitlen b"
proof (cases "0 < a")
  case False
  then show ?thesis by (simp add: bitlen_nonpos)
next
  case True
  show ?thesis
  proof (rule ccontr)
    assume "\<not> bitlen a \<le> bitlen b"
    then have "bitlen b \<le> bitlen a - 1" by simp
    then have "(2::int) ^ bitlen b \<le> 2 ^ (bitlen a - 1)"
      by (intro power_increasing) auto
    also have "\<dots> \<le> a" by (rule bitlen_lower [OF True])
    finally show False using bitlen_upper [of b] assms by simp
  qed
qed

lemma bitlen_less_pos: "bitlen t < bitlen a \<Longrightarrow> 0 < a"
  using bitlen_nonpos [of a] by (cases "0 < a") auto

section \<open>Rounding to the nearest value of the format\<close>

text \<open>
  A rounded magnitude is the multiple of the last place kept just below the exact one, or
  the next multiple; so a value of the format that is below the exact result is not above
  the rounded one, and a value of the format above the exact result is not below it.
\<close>

lemma mult_pow2_mono: "(x::int) \<le> y \<Longrightarrow> x * 2 ^ s \<le> y * 2 ^ s"
  by (simp add: mult_right_mono)

lemma round_mag_cases:
  "round_mag p a = a div 2 ^ (bitlen a - p) * 2 ^ (bitlen a - p) \<or>
   (round_mag p a = (a div 2 ^ (bitlen a - p) + 1) * 2 ^ (bitlen a - p) \<and>
    a mod 2 ^ (bitlen a - p) \<noteq> 0)"
  by (auto simp: round_mag_def Let_def)

lemma round_mag_grid:
  assumes "a mod 2 ^ (bitlen a - p) = 0"
  shows "round_mag p a = a"
  using assms by (auto simp: round_mag_def Let_def)

lemma floor_le: "(a::int) div 2 ^ s * 2 ^ s \<le> a"
  by (metis mult.commute mult_div_mod_eq pos_mod_sign zero_less_numeral zero_less_power
      le_add_same_cancel1)

lemma div_pow2_less:
  fixes a x :: int
  assumes "a < x * 2 ^ s"
  shows "a div 2 ^ s < x"
proof (rule ccontr)
  assume "\<not> a div 2 ^ s < x"
  then have "x \<le> a div 2 ^ s" by simp
  then have "x * 2 ^ s \<le> a div 2 ^ s * 2 ^ s" by (rule mult_pow2_mono)
  with floor_le [of a s] assms show False by linarith
qed

lemma grid_le_floor:
  fixes t a :: int
  assumes "0 < p" and "t \<le> a" and "t mod 2 ^ (bitlen t - p) = 0"
  shows "t \<le> a div 2 ^ (bitlen a - p) * 2 ^ (bitlen a - p)"
proof (cases "bitlen t = bitlen a")
  case True
  let ?s = "bitlen a - p"
  from assms(3) True have "t = t div 2 ^ ?s * 2 ^ ?s" by auto
  moreover have "t div 2 ^ ?s \<le> a div 2 ^ ?s"
    using assms(2) by (simp add: zdiv_mono1)
  ultimately show ?thesis
    using mult_pow2_mono [of "t div 2 ^ ?s" "a div 2 ^ ?s" ?s] by simp
next
  case False
  let ?b = "bitlen a" and ?s = "bitlen a - p"
  from False bitlen_mono [OF assms(2)] have lt: "bitlen t < ?b" by simp
  then have a: "0 < a" by (rule bitlen_less_pos)
  have "t < 2 ^ bitlen t" by (rule bitlen_upper)
  also have "(2::int) ^ bitlen t \<le> 2 ^ (?b - 1)"
    using lt by (intro power_increasing) auto
  finally have t: "t < 2 ^ (?b - 1)" .
  have s: "?s \<le> ?b - 1" using assms(1) lt by simp
  then obtain d where d: "?b - 1 = d + ?s" by (metis le_add_diff_inverse2)
  have e: "(2::int) ^ (?b - 1) = 2 ^ d * 2 ^ ?s"
    unfolding d by (simp add: power_add)
  have "(2::int) ^ d = 2 ^ d * 2 ^ ?s div 2 ^ ?s" by simp
  also have "\<dots> \<le> a div 2 ^ ?s"
    using bitlen_lower [OF a] unfolding e by (intro zdiv_mono1) auto
  finally have "(2::int) ^ d * 2 ^ ?s \<le> a div 2 ^ ?s * 2 ^ ?s"
    by (rule mult_pow2_mono)
  with t e show ?thesis by linarith
qed

lemma grid_ge_ceiling:
  fixes u a :: int
  assumes "a \<le> u" and "u mod 2 ^ (bitlen u - p) = 0"
    and "a mod 2 ^ (bitlen a - p) \<noteq> 0"
  shows "(a div 2 ^ (bitlen a - p) + 1) * 2 ^ (bitlen a - p) \<le> u"
proof (cases "bitlen u = bitlen a")
  case True
  let ?s = "bitlen a - p"
  from assms(2) True have u: "u = u div 2 ^ ?s * 2 ^ ?s" by auto
  have "a div 2 ^ ?s * 2 ^ ?s + a mod 2 ^ ?s = a" by (rule div_mult_mod_eq)
  moreover have "0 \<le> a mod 2 ^ ?s" by simp
  ultimately have "a div 2 ^ ?s * 2 ^ ?s < a" using assms(3) by linarith
  with assms(1) u have "a div 2 ^ ?s * 2 ^ ?s < u div 2 ^ ?s * 2 ^ ?s" by simp
  then have "a div 2 ^ ?s < u div 2 ^ ?s"
    by (simp add: mult_less_cancel_right)
  then have "a div 2 ^ ?s + 1 \<le> u div 2 ^ ?s" by simp
  then have "(a div 2 ^ ?s + 1) * 2 ^ ?s \<le> u div 2 ^ ?s * 2 ^ ?s"
    by (rule mult_pow2_mono)
  with u show ?thesis by simp
next
  case False
  let ?b = "bitlen a" and ?s = "bitlen a - p"
  from False bitlen_mono [OF assms(1)] have lt: "?b < bitlen u" by simp
  then have u: "0 < u" by (rule bitlen_less_pos)
  have "(2::int) ^ ?b \<le> 2 ^ (bitlen u - 1)"
    using lt by (intro power_increasing) auto
  also have "\<dots> \<le> u" by (rule bitlen_lower [OF u])
  finally have ub: "2 ^ ?b \<le> u" .
  obtain d where d: "?b = d + ?s" by (metis diff_le_self le_add_diff_inverse2)
  have e: "(2::int) ^ ?b = 2 ^ d * 2 ^ ?s"
    by (subst d) (simp add: power_add)
  have "a < 2 ^ d * 2 ^ ?s" using bitlen_upper [of a] e by simp
  then have "a div 2 ^ ?s < 2 ^ d"
    by (rule div_pow2_less)
  then have "a div 2 ^ ?s + 1 \<le> 2 ^ d" by simp
  then have "(a div 2 ^ ?s + 1) * 2 ^ ?s \<le> 2 ^ d * 2 ^ ?s"
    by (rule mult_pow2_mono)
  with e ub show ?thesis by linarith
qed

lemma round_mag_ge_grid:
  assumes "0 < p" and "t \<le> a" and "t mod 2 ^ (bitlen t - p) = 0"
  shows "t \<le> round_mag p a"
proof -
  have "t \<le> a div 2 ^ (bitlen a - p) * 2 ^ (bitlen a - p)"
    by (rule grid_le_floor [OF assms])
  moreover have "a div 2 ^ (bitlen a - p) * 2 ^ (bitlen a - p)
      \<le> (a div 2 ^ (bitlen a - p) + 1) * 2 ^ (bitlen a - p)"
    by (rule mult_pow2_mono) simp
  ultimately show ?thesis using round_mag_cases [of p a] by linarith
qed

lemma round_mag_le_grid:
  assumes "a \<le> u" and "u mod 2 ^ (bitlen u - p) = 0"
  shows "round_mag p a \<le> u"
proof -
  from round_mag_cases [of p a] show ?thesis
  proof (elim disjE conjE)
    assume "round_mag p a = a div 2 ^ (bitlen a - p) * 2 ^ (bitlen a - p)"
    with floor_le [of a "bitlen a - p"] assms(1) show ?thesis by linarith
  next
    assume "round_mag p a = (a div 2 ^ (bitlen a - p) + 1) * 2 ^ (bitlen a - p)"
      and "a mod 2 ^ (bitlen a - p) \<noteq> 0"
    with grid_ge_ceiling [OF assms] show ?thesis by simp
  qed
qed

lemma round_mag_nonneg: "0 \<le> a \<Longrightarrow> 0 \<le> round_mag p a"
  using round_mag_cases [of p a]
  by (auto simp: pos_imp_zdiv_nonneg_iff)


lemma fmax_nonneg: "0 \<le> fmax F"
  by (simp add: fmax_def)

lemma round_mag_0: "round_mag p 0 = 0"
  by (simp add: round_mag_def)

lemma is_float_0: "is_float F 0"
  by (simp add: is_float_def fmax_nonneg)

lemma is_float_neg: "is_float F (- t) = is_float F t"
  by (simp add: is_float_def)



lemma round_nearest_neg: "round_nearest F (- n) = fneg (round_nearest F n)"
  using fmax_nonneg [of F]
  by (cases "n = 0") (auto simp: round_nearest_def Let_def round_mag_0)

lemma round_nearest_float:
  assumes "is_float F t"
  shows "round_nearest F t = Finite t"
proof -
  from assms have "round_mag (precision F) \<bar>t\<bar> = \<bar>t\<bar>"
    by (intro round_mag_grid) (simp add: is_float_def)
  with assms show ?thesis
    by (auto simp: round_nearest_def Let_def is_float_def)
qed

lemma fless_fneg: "fless (fneg x) (fneg y) = fless y x"
  by (cases x; cases y) auto

lemma round_nearest_not_below:
  assumes "0 < precision F" and "is_float F t" and "t \<le> n"
  shows "\<not> fless (round_nearest F n) (Finite t)"
proof (cases "0 \<le> n")
  case True
  let ?m = "round_mag (precision F) \<bar>n\<bar>"
  have "t \<le> ?m"
  proof (cases "0 \<le> t")
    case False
    with round_mag_nonneg [of "\<bar>n\<bar>" "precision F"] show ?thesis by simp
  next
    case t: True
    with assms(2) have "t mod 2 ^ (bitlen t - precision F) = 0"
      by (simp add: is_float_def)
    from round_mag_ge_grid [OF assms(1) _ this, of "\<bar>n\<bar>"] assms(3) True
    show ?thesis by simp
  qed
  with True fmax_nonneg [of F] show ?thesis
    by (cases "n = 0") (auto simp: round_nearest_def Let_def round_mag_0)
next
  case False
  let ?m = "round_mag (precision F) \<bar>n\<bar>"
  from False assms(3) have neg: "t < 0" "n < 0" by simp_all
  with assms(2) have g: "\<bar>t\<bar> mod 2 ^ (bitlen \<bar>t\<bar> - precision F) = 0" and b: "\<bar>t\<bar> \<le> fmax F"
    by (simp_all add: is_float_def)
  have "\<bar>n\<bar> \<le> \<bar>t\<bar>" using neg assms(3) by simp
  from round_mag_le_grid [OF this g] have "?m \<le> \<bar>t\<bar>" .
  with b neg show ?thesis
    by (auto simp: round_nearest_def Let_def)
qed

lemma round_nearest_not_above:
  assumes "0 < precision F" and "is_float F t" and "n \<le> t"
  shows "\<not> fless (Finite t) (round_nearest F n)"
proof -
  from assms(2) have "is_float F (- t)" by (simp add: is_float_neg)
  from round_nearest_not_below [OF assms(1) this, of "- n"] assms(3)
  have "\<not> fless (round_nearest F (- n)) (Finite (- t))" by simp
  then show ?thesis
    by (metis fless_fneg fneg.simps(1) round_nearest_neg)
qed



section \<open>The loops on a floating-point type\<close>

declare add_loop_fp.simps(2) [simp del] subtract_loop_fp.simps(2) [simp del]

lemma fneg_fneg: "fneg (fneg x) = x"
  by (cases x) auto

lemma fless_0_fneg: "fless (Finite 0) (fneg x) = fless x (Finite 0)"
  using fless_fneg [of "Finite 0" x] by simp

lemma fless_fneg_0: "fless (fneg x) (Finite 0) = fless (Finite 0) x"
  using fless_fneg [of x "Finite 0"] by simp

lemma fless_asym: "fless x y \<Longrightarrow> \<not> fless y x"
  by (cases x; cases y) auto

lemma subtract_guard_fp_add_guard_fp:
  "subtract_guard_fp F v decrement = add_guard_fp F v (fneg decrement)"
  using fless_asym [of "Finite 0" decrement]
  by (auto simp: subtract_guard_fp_def add_guard_fp_def fsub_def fneg_fneg fless_0_fneg
      fless_fneg_0)

lemma subtract_loop_fp_add_loop_fp:
  "subtract_loop_fp F v decrement n = add_loop_fp F v (fneg decrement) n"
  by (induction n arbitrary: v)
    (simp_all add: add_loop_fp.simps(2) subtract_loop_fp.simps(2)
      subtract_guard_fp_add_guard_fp fsub_def Let_def split: prod.splits)

lemma add_guard_fp_passes:
  assumes "0 < precision F" and "is_float F v" and "is_float F (v + increment)"
  shows "\<not> snd (add_guard_fp F (Finite v) (Finite increment))"
proof -
  from assms(3) have "\<bar>v + increment\<bar> \<le> fmax F" by (simp add: is_float_def)
  then have r: "v \<le> fmax F - increment" "- fmax F - increment \<le> v"
    by linarith+
  from round_nearest_not_below [OF assms(1,2) r(1)]
    round_nearest_not_above [OF assms(1,2) r(2)]
  show ?thesis
    by (simp add: add_guard_fp_def maxVal_fp_def lowVal_fp_def fsub_def Let_def)
qed

lemma add_loop_fp_Suc_exact:
  assumes "0 < precision F" and "is_float F v" and "is_float F (v + increment)"
  shows "snd (add_loop_fp F (Finite v) (Finite increment) (Suc n)) =
           snd (add_loop_fp F (Finite (v + increment)) (Finite increment) n)"
  using add_guard_fp_passes [OF assms] round_nearest_float [OF assms(3)]
  by (auto simp: add_loop_fp.simps(2) Let_def split: prod.splits)

lemma add_loop_fp_exact:
  assumes "0 < precision F"
    and "\<forall>i\<le>n. is_float F (v + increment * int i)"
  shows "snd (add_loop_fp F (Finite v) (Finite increment) n) =
           \<lparr>value_fp = Finite (v + increment * int n), success_fp = True\<rparr>"
  using assms(2)
proof (induction n arbitrary: v)
  case 0
  show ?case by simp
next
  case (Suc n)
  from Suc.prems [THEN spec, of 0] have v: "is_float F v" by simp
  from Suc.prems [THEN spec, of 1] have v1: "is_float F (v + increment)" by simp
  have "\<forall>i\<le>n. is_float F (v + increment + increment * int i)"
  proof (intro allI impI)
    fix i assume "i \<le> n"
    with Suc.prems [THEN spec, of "Suc i"]
    show "is_float F (v + increment + increment * int i)"
      by (simp add: algebra_simps)
  qed
  from Suc.IH [OF this] show ?case
    by (simp add: add_loop_fp_Suc_exact [OF assms(1) v v1] algebra_simps)
qed

lemma subtract_loop_fp_exact:
  assumes "0 < precision F"
    and "\<forall>i\<le>n. is_float F (v - decrement * int i)"
  shows "snd (subtract_loop_fp F (Finite v) (Finite decrement) n) =
           \<lparr>value_fp = Finite (v - decrement * int n), success_fp = True\<rparr>"
  using add_loop_fp_exact [OF assms(1), of n v "- decrement"] assms(2)
  by (simp add: subtract_loop_fp_add_loop_fp)





section \<open>No-overflow exactness\<close>

text \<open>
  C1. When every partial sum \<open>start + step * i\<close>, \<open>i = 0..count\<close>, is a value of \<open>T\<close>
  (for an integer type: in its range; for a floating-point type: a finite value of the
  format, so that no addition is rounded), \<^verbatim>\<open>add_numbers(start, step, count)\<close> returns
  success and the exact value \<open>start + step * count\<close>; when every \<open>start - step * i\<close> is
  a value of \<open>T\<close>, \<^verbatim>\<open>subtract_numbers(start, step, count)\<close> returns success and
  \<open>start - step * count\<close>.
\<close>

theorem no_overflow_exactness:
  assumes "supported T" and "representable T step" and "0 < precision F"
  shows "((\<forall>i\<le>count. representable T (start + step * int i)) \<longrightarrow>
            add_numbers T start step count =
              Inr \<lparr>value = start + step * int count, success = True\<rparr>) \<and>
         ((\<forall>i\<le>count. representable T (start - step * int i)) \<longrightarrow>
            subtract_numbers T start step count =
              Inr \<lparr>value = start - step * int count, success = True\<rparr>) \<and>
         ((\<forall>i\<le>count. is_float F (fstart + fstep * int i)) \<longrightarrow>
            add_numbers_fp F (Finite fstart) (Finite fstep) count =
              \<lparr>value_fp = Finite (fstart + fstep * int count), success_fp = True\<rparr>) \<and>
         ((\<forall>i\<le>count. is_float F (fstart - fstep * int i)) \<longrightarrow>
            subtract_numbers_fp F (Finite fstart) (Finite fstep) count =
              \<lparr>value_fp = Finite (fstart - fstep * int count), success_fp = True\<rparr>)"
  using add_loop_safe [OF supported_width [OF assms(1)] assms(2), of count start]
    subtract_loop_safe [OF supported_width [OF assms(1)] assms(2), of count start]
    add_loop_fp_exact [OF assms(3), of count fstart fstep]
    subtract_loop_fp_exact [OF assms(3), of count fstart fstep]
  by (simp add: add_numbers_def add_numbers_run_def subtract_numbers_def
      subtract_numbers_run_def add_numbers_fp_def add_numbers_fp_run_def
      subtract_numbers_fp_def subtract_numbers_fp_run_def)

theorem no_overflow_exactness_witness:
  "supported \<lparr>is_signed = True, width = 32\<rparr> \<and>
   representable \<lparr>is_signed = True, width = 32\<rparr> 429496729 \<and>
   0 < precision binary32 \<and>
   add_numbers \<lparr>is_signed = True, width = 32\<rparr> 0 429496729 5 =
     Inr \<lparr>value = 2147483645, success = True\<rparr> \<and>
   subtract_numbers \<lparr>is_signed = True, width = 32\<rparr> 0 429496729 5 =
     Inr \<lparr>value = - 2147483645, success = True\<rparr> \<and>
   is_float binary32 0 \<and> is_float binary32 (2 ^ 149) \<and>
   is_float binary32 (2 * 2 ^ 149) \<and> is_float binary32 (- (2 ^ 149)) \<and>
   is_float binary32 (- (2 * 2 ^ 149)) \<and>
   add_numbers_fp binary32 (Finite 0) (Finite (2 ^ 149)) 2 =
     \<lparr>value_fp = Finite (2 * 2 ^ 149), success_fp = True\<rparr> \<and>
   subtract_numbers_fp binary32 (Finite 0) (Finite (2 ^ 149)) 2 =
     \<lparr>value_fp = Finite (- (2 * 2 ^ 149)), success_fp = True\<rparr>"
proof -
  let ?T = "\<lparr>is_signed = True, width = 32\<rparr>"
  have T: "supported ?T" by (simp add: supported_def)
  have s: "representable ?T 429496729"
    by (simp add: representable_def maxVal_def lowVal_def)
  have F: "0 < precision binary32" by (simp add: binary32_def)
  have a: "\<forall>i\<le>5. representable ?T (0 + 429496729 * int i)"
    by (auto simp: representable_def maxVal_def lowVal_def)
  have b: "\<forall>i\<le>5. representable ?T (0 - 429496729 * int i)"
    by (auto simp: representable_def maxVal_def lowVal_def)
  have f0: "is_float binary32 0" by (rule is_float_0)
  have f1: "is_float binary32 (2 ^ 149)" by code_simp
  have f2: "is_float binary32 (2 * 2 ^ 149)" by code_simp
  have g1: "is_float binary32 (- (2 ^ 149))" using f1 by (simp only: is_float_neg)
  have g2: "is_float binary32 (- (2 * 2 ^ 149))" using f2 by (simp only: is_float_neg)
  have c: "\<forall>i\<le>2. is_float binary32 (0 + 2 ^ 149 * int i)"
  proof (intro allI impI)
    fix i :: nat assume "i \<le> 2"
    then consider "i = 0" | "i = 1" | "i = 2" by linarith
    then show "is_float binary32 (0 + 2 ^ 149 * int i)"
      using f0 f1 f2 by cases simp_all
  qed
  have d: "\<forall>i\<le>2. is_float binary32 (0 - 2 ^ 149 * int i)"
  proof (intro allI impI)
    fix i :: nat assume "i \<le> 2"
    then consider "i = 0" | "i = 1" | "i = 2" by linarith
    then show "is_float binary32 (0 - 2 ^ 149 * int i)"
      using f0 g1 g2 by cases simp_all
  qed
  have r1: "add_numbers ?T 0 429496729 5 = Inr \<lparr>value = 2147483645, success = True\<rparr>"
    and r2: "subtract_numbers ?T 0 429496729 5 =
      Inr \<lparr>value = - 2147483645, success = True\<rparr>"
    using no_overflow_exactness [OF T s F, of 5 0] a b by simp_all
  have r3: "add_numbers_fp binary32 (Finite 0) (Finite (2 ^ 149)) 2 =
      \<lparr>value_fp = Finite (2 * 2 ^ 149), success_fp = True\<rparr>"
    and r4: "subtract_numbers_fp binary32 (Finite 0) (Finite (2 ^ 149)) 2 =
      \<lparr>value_fp = Finite (- (2 * 2 ^ 149)), success_fp = True\<rparr>"
    using no_overflow_exactness [OF T s F, of 2 _ 0 "2 ^ 149"] c d by simp_all
  from T s F r1 r2 f0 f1 f2 g1 g2 r3 r4 show ?thesis by blast
qed

text \<open>
  Read with partial sums that are only in range, the statement fails on \<^verbatim>\<open>float\<close>:
  the running total is rounded at every addition. From \<open>max - 4 ulp\<close> in steps of
  \<open>0.75 ulp\<close> every exact partial sum of five steps is below \<open>max\<close>, but each addition
  rounds up to the next value, the running total is \<open>max\<close> after four steps, and the
  fifth is refused.
\<close>

theorem no_overflow_exactness_float_counterexample:
  "is_float binary32 ((2 ^ 24 - 5) * 2 ^ 253) \<and>
   is_float binary32 (3 * 2 ^ 251) \<and>
   - fmax binary32 \<le> (2 ^ 24 - 5) * 2 ^ 253 \<and>
   (0::int) < 3 * 2 ^ 251 \<and>
   (2 ^ 24 - 5) * 2 ^ 253 + 3 * 2 ^ 251 * 5 \<le> fmax binary32 \<and>
   add_numbers_fp binary32 (Finite ((2 ^ 24 - 5) * 2 ^ 253)) (Finite (3 * 2 ^ 251)) 5 =
     \<lparr>value_fp = Finite (fmax binary32), success_fp = False\<rparr>"
  by code_simp

section \<open>First-violation stopping\<close>

text \<open>
  C2. On an integer type: if the first unsafe step of
  \<^verbatim>\<open>add_numbers(start, step, count)\<close> is iteration \<open>k\<close> (counted from 0, \<open>k < count\<close>),
  that is, the partial sums up to \<open>start + step * k\<close> are representable and
  \<open>start + step * (k + 1)\<close> is not, the routine returns failure with the value
  \<open>start + step * k\<close> and has performed exactly \<open>k\<close> accumulations, whatever \<open>count\<close>
  is; likewise \<^verbatim>\<open>subtract_numbers\<close> with \<open>start - step * k\<close>.
\<close>

theorem first_violation_stopping:
  assumes "supported T" and "representable T step" and "k < count"
  shows "((\<forall>i\<le>k. representable T (start + step * int i)) \<and>
          \<not> representable T (start + step * int (Suc k)) \<longrightarrow>
            add_numbers T start step count =
              Inr \<lparr>value = start + step * int k, success = False\<rparr> \<and>
            length (filter (\<lambda>e. fst e = Accumulate)
              (fst (add_numbers_run T start step count))) = k) \<and>
         ((\<forall>i\<le>k. representable T (start - step * int i)) \<and>
          \<not> representable T (start - step * int (Suc k)) \<longrightarrow>
            subtract_numbers T start step count =
              Inr \<lparr>value = start - step * int k, success = False\<rparr> \<and>
            length (filter (\<lambda>e. fst e = Accumulate)
              (fst (subtract_numbers_run T start step count))) = k)"
  using add_loop_stop [OF supported_width [OF assms(1)] assms(2,3), of start]
    subtract_loop_stop [OF supported_width [OF assms(1)] assms(2,3), of start]
  by (simp add: add_numbers_def add_numbers_run_def subtract_numbers_def
      subtract_numbers_run_def)

theorem first_violation_stopping_witness:
  "supported \<lparr>is_signed = True, width = 32\<rparr> \<and>
   representable \<lparr>is_signed = True, width = 32\<rparr> 429496729 \<and>
   (5::nat) < 6 \<and>
   \<not> representable \<lparr>is_signed = True, width = 32\<rparr> (0 + 429496729 * int (Suc 5)) \<and>
   \<not> representable \<lparr>is_signed = True, width = 32\<rparr> (0 - 429496729 * int (Suc 5)) \<and>
   add_numbers \<lparr>is_signed = True, width = 32\<rparr> 0 429496729 6 =
     Inr \<lparr>value = 2147483645, success = False\<rparr> \<and>
   length (filter (\<lambda>e. fst e = Accumulate)
     (fst (add_numbers_run \<lparr>is_signed = True, width = 32\<rparr> 0 429496729 6))) = 5 \<and>
   subtract_numbers \<lparr>is_signed = True, width = 32\<rparr> 0 429496729 6 =
     Inr \<lparr>value = - 2147483645, success = False\<rparr> \<and>
   length (filter (\<lambda>e. fst e = Accumulate)
     (fst (subtract_numbers_run \<lparr>is_signed = True, width = 32\<rparr> 0 429496729 6))) = 5"
proof -
  let ?T = "\<lparr>is_signed = True, width = 32\<rparr>"
  have T: "supported ?T" by (simp add: supported_def)
  have s: "representable ?T 429496729"
    by (simp add: representable_def maxVal_def lowVal_def)
  have k: "(5::nat) < 6" by simp
  have a: "\<forall>i\<le>5. representable ?T (0 + 429496729 * int i)"
    by (auto simp: representable_def maxVal_def lowVal_def)
  have b: "\<forall>i\<le>5. representable ?T (0 - 429496729 * int i)"
    by (auto simp: representable_def maxVal_def lowVal_def)
  have na: "\<not> representable ?T (0 + 429496729 * int (Suc 5))"
    by (simp add: representable_def maxVal_def lowVal_def)
  have nb: "\<not> representable ?T (0 - 429496729 * int (Suc 5))"
    by (simp add: representable_def maxVal_def lowVal_def)
  from first_violation_stopping [OF T s k, of 0] a b na nb T s show ?thesis by simp
qed

text \<open>
  On \<^verbatim>\<open>float\<close> the statement fails in both of its parts. From \<open>max\<close> with step
  \<open>1.0\<close> the first step already leaves the range, but \<open>max - 1.0\<close> and \<open>max + 1.0\<close>
  both round to \<open>max\<close>: the guard lets the step pass and the run returns success. From
  \<open>3e38\<close> in steps of \<open>1e37\<close> the fifth step is the first to leave the range and is
  refused, but the value returned is the rounded running total, not
  \<open>start + step * 4\<close>.
\<close>

theorem first_violation_float_counterexample:
  "is_float binary32 (fmax binary32) \<and>
   is_float binary32 (2 ^ 149) \<and>
   fmax binary32 < fmax binary32 + 2 ^ 149 * 1 \<and>
   add_numbers_fp binary32 (Finite (fmax binary32)) (Finite (2 ^ 149)) 1 =
     \<lparr>value_fp = Finite (fmax binary32), success_fp = True\<rparr> \<and>
   is_float binary32 (7395571 * 2 ^ 254) \<and>
   is_float binary32 (7888609 * 2 ^ 249) \<and>
   7395571 * 2 ^ 254 + 7888609 * 2 ^ 249 * 4 \<le> fmax binary32 \<and>
   fmax binary32 < 7395571 * 2 ^ 254 + 7888609 * 2 ^ 249 * 5 \<and>
   add_numbers_fp binary32 (Finite (7395571 * 2 ^ 254)) (Finite (7888609 * 2 ^ 249)) 10 =
     \<lparr>value_fp = Finite (8381647 * 2 ^ 254), success_fp = False\<rparr> \<and>
   (8381647 * 2 ^ 254 :: int) \<noteq> 7395571 * 2 ^ 254 + 7888609 * 2 ^ 249 * 4"
  by code_simp

section \<open>The returned value\<close>




section \<open>Symmetry\<close>

lemma subtract_guard_add_guard: "subtract_guard T v decrement = add_guard T v (- decrement)"
  by (simp add: subtract_guard_def add_guard_def)

lemma subtract_loop_add_loop: "subtract_loop T v decrement n = add_loop T v (- decrement) n"
  by (induction n arbitrary: v)
    (simp_all add: add_loop.simps(2) subtract_loop.simps(2) subtract_guard_add_guard
      cong: if_cong)

text \<open>
  C5. Wherever \<open>- step\<close> is representable in \<open>T\<close>,
  \<^verbatim>\<open>subtract_numbers(start, step, count)\<close> returns the same result, flag and value, as
  \<^verbatim>\<open>add_numbers(start, -step, count)\<close>.
\<close>

theorem subtract_is_add_of_negated_step:
  assumes "supported T" and "representable T start" and "representable T step"
    and "representable T (- step)"
  shows "subtract_numbers T start step count = add_numbers T start (- step) count"
  by (simp add: subtract_numbers_def subtract_numbers_run_def add_numbers_def
      add_numbers_run_def subtract_loop_add_loop)

theorem subtract_is_add_of_negated_step_witness:
  "supported \<lparr>is_signed = True, width = 16\<rparr> \<and>
   representable \<lparr>is_signed = True, width = 16\<rparr> 100 \<and>
   representable \<lparr>is_signed = True, width = 16\<rparr> (- 7000) \<and>
   representable \<lparr>is_signed = True, width = 16\<rparr> (- (- 7000)) \<and>
   subtract_numbers \<lparr>is_signed = True, width = 16\<rparr> 100 (- 7000) 9 =
     add_numbers \<lparr>is_signed = True, width = 16\<rparr> 100 (- (- 7000)) 9"
proof -
  let ?T = "\<lparr>is_signed = True, width = 16\<rparr>"
  have T: "supported ?T" by (simp add: supported_def)
  have a: "representable ?T 100" and s: "representable ?T (- 7000)"
    and n: "representable ?T (- (- 7000))"
    by (simp_all add: representable_def maxVal_def lowVal_def)
  from subtract_is_add_of_negated_step [OF T a s n, of 9] T a s n show ?thesis
    by blast
qed

section \<open>Zero step\<close>

lemma representable_0: "representable T 0"
  using lowVal_le_0 [of T] maxVal_ge_0 [of T] by (simp add: representable_def)

text \<open>
  C6. With step 0, \<^verbatim>\<open>add_numbers\<close> and \<^verbatim>\<open>subtract_numbers\<close> return success and the
  value \<open>start\<close>, for every count.
\<close>

theorem zero_step_idempotence:
  assumes "supported T" and "representable T start"
  shows "add_numbers T start 0 count = Inr \<lparr>value = start, success = True\<rparr> \<and>
         subtract_numbers T start 0 count = Inr \<lparr>value = start, success = True\<rparr>"
  using add_loop_safe [OF supported_width [OF assms(1)] representable_0, of count start]
    subtract_loop_safe [OF supported_width [OF assms(1)] representable_0, of count start]
    assms(2)
  by (simp add: add_numbers_def add_numbers_run_def subtract_numbers_def
      subtract_numbers_run_def)

theorem zero_step_idempotence_witness:
  "supported \<lparr>is_signed = False, width = 64\<rparr> \<and>
   representable \<lparr>is_signed = False, width = 64\<rparr> 18446744073709551615 \<and>
   add_numbers \<lparr>is_signed = False, width = 64\<rparr> 18446744073709551615 0 1000000 =
     Inr \<lparr>value = 18446744073709551615, success = True\<rparr> \<and>
   subtract_numbers \<lparr>is_signed = False, width = 64\<rparr> 18446744073709551615 0 1000000 =
     Inr \<lparr>value = 18446744073709551615, success = True\<rparr>"
proof -
  let ?T = "\<lparr>is_signed = False, width = 64\<rparr>"
  have T: "supported ?T" by (simp add: supported_def)
  have a: "representable ?T 18446744073709551615"
    by (simp add: representable_def maxVal_def lowVal_def)
  from zero_step_idempotence [OF T a, of 1000000] T a show ?thesis by blast
qed

section \<open>Safety of the arithmetic performed\<close>




section \<open>Outcomes are returned, not thrown\<close>

text \<open>
  C8. A call with count 0 returns success and the value \<open>start\<close>. For every count, the
  outcome of \<^verbatim>\<open>add_numbers\<close> and of \<^verbatim>\<open>subtract_numbers\<close> is a returned result record,
  never an error, and its flag tells the two outcomes apart: it is true exactly when
  all the partial sums were in range.
\<close>

theorem outcomes_are_results:
  assumes "supported T" and "representable T start" and "representable T step"
  shows "add_numbers T start step 0 = Inr \<lparr>value = start, success = True\<rparr> \<and>
         subtract_numbers T start step 0 = Inr \<lparr>value = start, success = True\<rparr> \<and>
         (\<exists>r. add_numbers T start step count = Inr r \<and>
            (success r \<longleftrightarrow> (\<forall>i\<le>count. representable T (start + step * int i)))) \<and>
         (\<exists>r. subtract_numbers T start step count = Inr r \<and>
            (success r \<longleftrightarrow> (\<forall>i\<le>count. representable T (start - step * int i))))"
proof -
  note w = supported_width [OF assms(1)]
  from add_loop_partial_sum [OF w assms(3,2), of count]
  obtain i where i: "i \<le> count"
    "snd (add_loop T start step count) =
       Inr \<lparr>value = start + step * int i, success = (i = count)\<rparr>"
    "\<forall>j\<le>i. representable T (start + step * int j)"
    by blast
  have "(i = count) \<longleftrightarrow> (\<forall>j\<le>count. representable T (start + step * int j))"
    using i(2,3) add_loop_safe [OF w assms(3), of count start] by auto
  with i(2) have A: "\<exists>r. add_numbers T start step count = Inr r \<and>
      (success r \<longleftrightarrow> (\<forall>i\<le>count. representable T (start + step * int i)))"
    by (simp add: add_numbers_def add_numbers_run_def)
  from subtract_loop_partial_sum [OF w assms(3,2), of count]
  obtain k where k: "k \<le> count"
    "snd (subtract_loop T start step count) =
       Inr \<lparr>value = start - step * int k, success = (k = count)\<rparr>"
    "\<forall>j\<le>k. representable T (start - step * int j)"
    by blast
  have "(k = count) \<longleftrightarrow> (\<forall>j\<le>count. representable T (start - step * int j))"
    using k(2,3) subtract_loop_safe [OF w assms(3), of count start] by auto
  with k(2) have B: "\<exists>r. subtract_numbers T start step count = Inr r \<and>
      (success r \<longleftrightarrow> (\<forall>i\<le>count. representable T (start - step * int i)))"
    by (simp add: subtract_numbers_def subtract_numbers_run_def)
  have "add_numbers T start step 0 = Inr \<lparr>value = start, success = True\<rparr>"
    "subtract_numbers T start step 0 = Inr \<lparr>value = start, success = True\<rparr>"
    by (simp_all add: add_numbers_def add_numbers_run_def subtract_numbers_def
        subtract_numbers_run_def ret_def)
  with A B show ?thesis by blast
qed

theorem outcomes_are_results_witness:
  "supported \<lparr>is_signed = False, width = 16\<rparr> \<and>
   representable \<lparr>is_signed = False, width = 16\<rparr> 65535 \<and>
   representable \<lparr>is_signed = False, width = 16\<rparr> 13107 \<and>
   add_numbers \<lparr>is_signed = False, width = 16\<rparr> 65535 13107 0 =
     Inr \<lparr>value = 65535, success = True\<rparr> \<and>
   subtract_numbers \<lparr>is_signed = False, width = 16\<rparr> 65535 13107 0 =
     Inr \<lparr>value = 65535, success = True\<rparr> \<and>
   (\<exists>r. add_numbers \<lparr>is_signed = False, width = 16\<rparr> 65535 13107 6 = Inr r \<and>
      \<not> success r) \<and>
   (\<exists>r. subtract_numbers \<lparr>is_signed = False, width = 16\<rparr> 65535 13107 6 = Inr r \<and>
      \<not> success r)"
proof -
  let ?T = "\<lparr>is_signed = False, width = 16\<rparr>"
  have T: "supported ?T" by (simp add: supported_def)
  have a: "representable ?T 65535" and s: "representable ?T 13107"
    by (simp_all add: representable_def maxVal_def lowVal_def)
  have na: "\<not> (\<forall>i\<le>6. representable ?T (65535 + 13107 * int i))"
    by (auto simp: representable_def maxVal_def lowVal_def intro!: exI [of _ 1])
  have nb: "\<not> (\<forall>i\<le>6. representable ?T (65535 - 13107 * int i))"
    by (auto simp: representable_def maxVal_def lowVal_def intro!: exI [of _ 6])
  from outcomes_are_results [OF T a s, of 6] na nb T a s show ?thesis
    by auto
qed

section \<open>Failure is stable under larger counts\<close>

text \<open>
  C9. If \<^verbatim>\<open>add_numbers(start, step, n)\<close> returns failure, then for every \<open>m \<ge> n\<close> the
  call \<^verbatim>\<open>add_numbers(start, step, m)\<close> returns the same result, value and flag;
  likewise for \<^verbatim>\<open>subtract_numbers\<close>.
\<close>

theorem failure_is_stable:
  assumes "supported T" and "representable T start" and "representable T step"
    and "n \<le> m"
  shows "(\<forall>r. add_numbers T start step n = Inr r \<and> \<not> success r \<longrightarrow>
            add_numbers T start step m = Inr r) \<and>
         (\<forall>r. subtract_numbers T start step n = Inr r \<and> \<not> success r \<longrightarrow>
            subtract_numbers T start step m = Inr r)"
  using add_loop_failure_stable [OF supported_width [OF assms(1)] assms(3,2) _ _ assms(4)]
    subtract_loop_failure_stable [OF supported_width [OF assms(1)] assms(3,2) _ _ assms(4)]
  by (auto simp: add_numbers_def add_numbers_run_def subtract_numbers_def
      subtract_numbers_run_def)

theorem failure_is_stable_witness:
  "supported \<lparr>is_signed = True, width = 32\<rparr> \<and>
   representable \<lparr>is_signed = True, width = 32\<rparr> 0 \<and>
   representable \<lparr>is_signed = True, width = 32\<rparr> 429496729 \<and>
   (6::nat) \<le> 4000000000 \<and>
   add_numbers \<lparr>is_signed = True, width = 32\<rparr> 0 429496729 6 =
     Inr \<lparr>value = 2147483645, success = False\<rparr> \<and>
   add_numbers \<lparr>is_signed = True, width = 32\<rparr> 0 429496729 4000000000 =
     Inr \<lparr>value = 2147483645, success = False\<rparr> \<and>
   subtract_numbers \<lparr>is_signed = True, width = 32\<rparr> 0 429496729 6 =
     Inr \<lparr>value = - 2147483645, success = False\<rparr> \<and>
   subtract_numbers \<lparr>is_signed = True, width = 32\<rparr> 0 429496729 4000000000 =
     Inr \<lparr>value = - 2147483645, success = False\<rparr>"
proof -
  let ?T = "\<lparr>is_signed = True, width = 32\<rparr>"
  have T: "supported ?T" by (simp add: supported_def)
  have w: "0 < width ?T" by simp
  have a: "representable ?T 0" and s: "representable ?T 429496729"
    by (simp_all add: representable_def maxVal_def lowVal_def)
  have nm: "(6::nat) \<le> 4000000000" by simp
  have k: "(5::nat) < 6" by simp
  have pa: "\<forall>i\<le>5. representable ?T (0 + 429496729 * int i)"
    by (auto simp: representable_def maxVal_def lowVal_def)
  have pb: "\<forall>i\<le>5. representable ?T (0 - 429496729 * int i)"
    by (auto simp: representable_def maxVal_def lowVal_def)
  have na: "\<not> representable ?T (0 + 429496729 * int (Suc 5))"
    by (simp add: representable_def maxVal_def lowVal_def)
  have nb: "\<not> representable ?T (0 - 429496729 * int (Suc 5))"
    by (simp add: representable_def maxVal_def lowVal_def)
  have ra: "add_numbers ?T 0 429496729 6 = Inr \<lparr>value = 2147483645, success = False\<rparr>"
    using add_loop_stop [OF w s k pa na]
    by (simp add: add_numbers_def add_numbers_run_def)
  have rb: "subtract_numbers ?T 0 429496729 6 =
      Inr \<lparr>value = - 2147483645, success = False\<rparr>"
    using subtract_loop_stop [OF w s k pb nb]
    by (simp add: subtract_numbers_def subtract_numbers_run_def)
  from failure_is_stable [OF T a s nm] ra rb T a s show ?thesis
    by simp
qed

section \<open>Accumulation composes over the count\<close>

text \<open>
  C10. If \<^verbatim>\<open>add_numbers(start, step, a)\<close> returns success with value \<open>v\<close>, then
  \<^verbatim>\<open>add_numbers(start, step, a + b)\<close> returns the result of
  \<^verbatim>\<open>add_numbers(v, step, b)\<close>; likewise for \<^verbatim>\<open>subtract_numbers\<close>.
\<close>

theorem accumulation_composes:
  assumes "supported T" and "representable T start" and "representable T step"
  shows "(\<forall>r. add_numbers T start step a = Inr r \<and> success r \<longrightarrow>
            add_numbers T start step (a + b) = add_numbers T (value r) step b) \<and>
         (\<forall>r. subtract_numbers T start step a = Inr r \<and> success r \<longrightarrow>
            subtract_numbers T start step (a + b) = subtract_numbers T (value r) step b)"
  using add_loop_compose [OF supported_width [OF assms(1)] assms(3,2), of a _ b]
    subtract_loop_compose [OF supported_width [OF assms(1)] assms(3,2), of a _ b]
  by (auto simp: add_numbers_def add_numbers_run_def subtract_numbers_def
      subtract_numbers_run_def)

theorem accumulation_composes_witness:
  "supported \<lparr>is_signed = True, width = 32\<rparr> \<and>
   representable \<lparr>is_signed = True, width = 32\<rparr> 0 \<and>
   representable \<lparr>is_signed = True, width = 32\<rparr> 429496729 \<and>
   add_numbers \<lparr>is_signed = True, width = 32\<rparr> 0 429496729 3 =
     Inr \<lparr>value = 1288490187, success = True\<rparr> \<and>
   add_numbers \<lparr>is_signed = True, width = 32\<rparr> 0 429496729 (3 + 3) =
     add_numbers \<lparr>is_signed = True, width = 32\<rparr> 1288490187 429496729 3 \<and>
   subtract_numbers \<lparr>is_signed = True, width = 32\<rparr> 0 429496729 3 =
     Inr \<lparr>value = - 1288490187, success = True\<rparr> \<and>
   subtract_numbers \<lparr>is_signed = True, width = 32\<rparr> 0 429496729 (3 + 3) =
     subtract_numbers \<lparr>is_signed = True, width = 32\<rparr> (- 1288490187) 429496729 3"
proof -
  let ?T = "\<lparr>is_signed = True, width = 32\<rparr>"
  have T: "supported ?T" by (simp add: supported_def)
  have w: "0 < width ?T" by simp
  have a: "representable ?T 0" and s: "representable ?T 429496729"
    by (simp_all add: representable_def maxVal_def lowVal_def)
  have pa: "\<forall>i\<le>3. representable ?T (0 + 429496729 * int i)"
    by (auto simp: representable_def maxVal_def lowVal_def)
  have pb: "\<forall>i\<le>3. representable ?T (0 - 429496729 * int i)"
    by (auto simp: representable_def maxVal_def lowVal_def)
  have ra: "add_numbers ?T 0 429496729 3 = Inr \<lparr>value = 1288490187, success = True\<rparr>"
    using add_loop_safe [OF w s pa] by (simp add: add_numbers_def add_numbers_run_def)
  have rb: "subtract_numbers ?T 0 429496729 3 =
      Inr \<lparr>value = - 1288490187, success = True\<rparr>"
    using subtract_loop_safe [OF w s pb]
    by (simp add: subtract_numbers_def subtract_numbers_run_def)
  from accumulation_composes [OF T a s, of 3 3] ra rb T a s show ?thesis
    by simp
qed

section \<open>Worked runs\<close>

text \<open>
  The runs below are evaluated from the definitions alone. The first shows the record of
  a run: on a signed 8-bit type, from \<open>- 128\<close> in steps of 127, the guard expression
  \<^verbatim>\<open>maxVal - increment\<close> is 0 each time, two additions are made, and the third
  iteration stops the run.
\<close>

lemma run_signed_char_example:
  "add_numbers_run \<lparr>is_signed = True, width = 8\<rparr> (- 128) 127 4 =
     ([(Guard, 0), (Accumulate, - 1), (Guard, 0), (Accumulate, 126), (Guard, 0)],
      Inr \<lparr>value = 126, success = False\<rparr>)"
  by code_simp

text \<open>The boundary scenario on a signed 32-bit type: five steps of \<open>max / 5\<close> fit, the
  sixth is refused.\<close>

lemma scenario_int_overflow:
  "test_overflow \<lparr>is_signed = True, width = 32\<rparr> =
     (Inr \<lparr>value = 2147483645, success = True\<rparr>,
      Inr \<lparr>value = 2147483645, success = False\<rparr>)"
  by code_simp

text \<open>The underflow scenario on an unsigned 8-bit type: five steps of 51 down from 255
  reach 0, the sixth is refused.\<close>

lemma scenario_unsigned_char_underflow:
  "test_underflow \<lparr>is_signed = False, width = 8\<rparr> =
     (Inr \<lparr>value = 0, success = True\<rparr>, Inr \<lparr>value = 0, success = False\<rparr>)"
  by code_simp

text \<open>
  Without its guard the accumulation would leave the range: the sixth addition of the
  overflow test is a signed overflow for \<^verbatim>\<open>int\<close>, and wraps around for
  \<^verbatim>\<open>unsigned int\<close>.
\<close>

lemma unguarded_addition_overflows:
  "snd (arith Accumulate (promote \<lparr>is_signed = True, width = 32\<rparr>)
     (2147483645 + 429496729)) = Inl SignedOverflow"
  "snd (arith Accumulate (promote \<lparr>is_signed = False, width = 32\<rparr>)
     (4294967295 + 858993459)) = Inr 858993458"
  by code_simp+

section \<open>The second runs of the test driver\<close>

lemma supported_maxVal: "supported T \<Longrightarrow> 127 \<le> maxVal T"
  by (auto simp: supported_def maxVal_def)

lemma lowVal_signed: "0 < width T \<Longrightarrow> is_signed T \<Longrightarrow> lowVal T = - maxVal T - 1"
  by (simp add: lowVal_def maxVal_def)

lemma lowVal_unsigned: "\<not> is_signed T \<Longrightarrow> lowVal T = 0"
  by (simp add: lowVal_def)

lemma multiples_in_range:
  fixes q :: int
  assumes "0 \<le> q" and "i \<le> n"
  shows "0 \<le> q * int i" and "q * int i \<le> q * int n"
  using assms by (simp_all add: mult_left_mono)

text \<open>
  The additive second run \<^verbatim>\<open>add_numbers(0, max / 5, 6)\<close> fails at the sixth step, for
  every supported integer type.
\<close>

lemma test_overflow_second_run:
  assumes "supported T"
  shows "snd (test_overflow T) =
           Inr \<lparr>value = 5 * (maxVal T div 5), success = False\<rparr>"
proof -
  define q where "q = maxVal T div 5"
  note w = supported_width [OF assms]
  from supported_maxVal [OF assms] have q: "0 \<le> q" "5 * q \<le> maxVal T" "maxVal T < 6 * q"
    unfolding q_def by presburger+
  have s: "representable T q"
    using q lowVal_le_0 [of T] by (simp add: representable_def)
  have p: "\<forall>i\<le>5. representable T (0 + q * int i)"
  proof (intro allI impI)
    fix i :: nat assume "i \<le> 5"
    from multiples_in_range [OF q(1) this] q(2) lowVal_le_0 [of T]
    show "representable T (0 + q * int i)" by (simp add: representable_def)
  qed
  have n: "\<not> representable T (0 + q * int (Suc 5))"
    using q(3) by (simp add: representable_def)
  have k: "(5::nat) < 6" by simp
  from add_loop_stop [OF w s k p n] show ?thesis
    by (simp add: test_overflow_def add_numbers_def add_numbers_run_def q_def Let_def
        mult.commute)
qed

text \<open>
  The subtractive second run \<^verbatim>\<open>subtract_numbers(max, max / 5, 6)\<close> fails at the sixth
  step for an unsigned type. For a signed type \<open>max - 6 * (max / 5)\<close> is negative and
  representable, and the run completes.
\<close>

lemma test_underflow_second_run:
  assumes "supported T"
  shows "snd (test_underflow T) =
           (if is_signed T
            then Inr \<lparr>value = maxVal T - 6 * (maxVal T div 5), success = True\<rparr>
            else Inr \<lparr>value = maxVal T mod 5, success = False\<rparr>)"
proof -
  define q where "q = maxVal T div 5"
  note w = supported_width [OF assms]
  from supported_maxVal [OF assms]
  have q: "0 \<le> q" "5 * q \<le> maxVal T" "maxVal T < 6 * q" "6 * q \<le> 2 * maxVal T"
    "maxVal T - 5 * q = maxVal T mod 5"
    unfolding q_def by presburger+
  have s: "representable T q"
    using q lowVal_le_0 [of T] by (simp add: representable_def)
  show ?thesis
  proof (cases "is_signed T")
    case True
    have "\<forall>i\<le>6. representable T (maxVal T - q * int i)"
    proof (intro allI impI)
      fix i :: nat assume "i \<le> 6"
      from multiples_in_range [OF q(1) this] q(4) lowVal_signed [OF w True]
      show "representable T (maxVal T - q * int i)" by (simp add: representable_def)
    qed
    from subtract_loop_safe [OF w s this] True show ?thesis
      by (simp add: test_underflow_def subtract_numbers_def subtract_numbers_run_def q_def
          Let_def mult.commute)
  next
    case False
    have p: "\<forall>i\<le>5. representable T (maxVal T - q * int i)"
    proof (intro allI impI)
      fix i :: nat assume "i \<le> 5"
      from multiples_in_range [OF q(1) this] q(2) lowVal_unsigned [OF False]
      show "representable T (maxVal T - q * int i)" by (simp add: representable_def)
    qed
    have n: "\<not> representable T (maxVal T - q * int (Suc 5))"
      using q(3) lowVal_unsigned [OF False] by (simp add: representable_def)
    have k: "(5::nat) < 6" by simp
    from subtract_loop_stop [OF w s k p n] False q(5) show ?thesis
      by (simp add: test_underflow_def subtract_numbers_def subtract_numbers_run_def q_def
          Let_def mult.commute)
  qed
qed

text \<open>
  C3. The second run of each direction is meant to leave the range of the type and to
  return failure. Evaluated on \<^verbatim>\<open>int\<close> (signed, 32 bits), \<^verbatim>\<open>test_underflow<int>\<close> calls
  \<^verbatim>\<open>subtract_numbers(2147483647, 429496729, 6)\<close>, and this second run returns success
  with the value \<open>- 429496727\<close>, as its first run does with the value 2: no underflow is
  reached.
\<close>

theorem test_underflow_int_second_run_succeeds:
  "test_underflow \<lparr>is_signed = True, width = 32\<rparr> =
     (Inr \<lparr>value = 2, success = True\<rparr>, Inr \<lparr>value = - 429496727, success = True\<rparr>)"
  by code_simp

end
